theory Spec2Isabelle
  imports Complex_Main
begin

section \<open>The rolling session-block aggregator of context-monitor-generic.py\<close>

text \<open>
  The development embeds \<open>get_claude_session_data_claude_monitor_exact\<close>
  (scripts/context-monitor-generic.py, lines 317 to 500): the ingestion loop over the
  JSONL lines with its de-duplication, the sort, the scan that cuts the entries into
  five-hour blocks, the pass that marks blocks active, and the selection of the block
  that is reported.

  What the function reads from its environment is a parameter of the model: the instant
  \<open>now\<close>, and the log files found under the home directory, each file already cut into
  lines and each line already classified by what \<open>json.loads\<close> makes of it.
\<close>

subsection \<open>Instants and datetimes\<close>

text \<open>
  An aware \<open>datetime\<close> is an instant, counted in microseconds from the epoch in UTC,
  together with the offset of its timezone, in microseconds as well. Python compares and
  subtracts aware datetimes by their instants; only \<open>replace\<close> looks at the local fields.
  A \<open>timedelta\<close> is a number of microseconds. Instants are unbounded integers here: the
  model covers the runs in which no datetime leaves the years 1 to 9999 that Python
  represents.
\<close>

record datetime =
  utc :: int
  utcoffset :: int

definition hours :: "int \<Rightarrow> int" where
  "hours h = h * 3600000000"

definition total_seconds_le :: "int \<Rightarrow> int \<Rightarrow> bool" where
  \<comment> \<open>\<open>td.total_seconds() <= s\<close> for a timedelta of \<open>td\<close> microseconds and an integer \<open>s\<close>\<close>
  "total_seconds_le td s = (td \<le> s * 1000000)"

definition replace_minute_second_microsecond_0 :: "datetime \<Rightarrow> datetime" where
  \<comment> \<open>\<open>t.replace(minute=0, second=0, microsecond=0)\<close>: the local fields below the hour
      are zeroed, the timezone is kept\<close>
  "replace_minute_second_microsecond_0 t =
     t\<lparr>utc := utc t - (utc t + utcoffset t) mod hours 1\<rparr>"

definition plus_timedelta :: "datetime \<Rightarrow> int \<Rightarrow> datetime" where
  "plus_timedelta t d = t\<lparr>utc := utc t + d\<rparr>"

subsection \<open>Log lines as the loop sees them\<close>

text \<open>
  A line is blank (skipped before any parsing), or text that \<open>json.loads\<close> rejects, or
  JSON that is not an object (the first \<open>data.get\<close> raises), or an object. Of an object
  the loop reads six keys. Each field type below has one constructor for every way the
  code's control flow tells values apart: falsy or absent, of the wrong type (the method
  call on it raises), or usable. Identifiers are strings when present, token counts are
  JSON integers when present, as the input contract has them.
\<close>

datatype exn = JSONDecodeError | AttributeError | ValueError | TypeError

datatype ts_field =
    TsFalsy              \<comment> \<open>key absent, null or empty: \<open>if timestamp_str\<close> fails\<close>
  | TsNotStr             \<comment> \<open>truthy but no string: \<open>.replace\<close> raises AttributeError\<close>
  | TsBadFormat          \<comment> \<open>\<open>fromisoformat\<close> raises ValueError\<close>
  | TsNaive              \<comment> \<open>parses without offset: comparing with the aware cutoff raises TypeError\<close>
  | TsAware datetime

datatype usage_field =
    UsageFalsy                           \<comment> \<open>key absent, null, or an empty object\<close>
  | UsageNotDict                         \<comment> \<open>truthy but no object: \<open>usage.get\<close> raises\<close>
  | UsageDict "int option" "int option"  \<comment> \<open>a non-empty object; its two token keys, if any\<close>

datatype message_field =
    MsgAbsent                              \<comment> \<open>key absent: \<open>data.get('message', {})\<close> is \<open>{}\<close>\<close>
  | MsgNotDict                             \<comment> \<open>null or any non-object\<close>
  | MsgDict "string option" usage_field    \<comment> \<open>an object; its keys \<open>id\<close> and \<open>usage\<close>\<close>

record data =
  d_type :: "string option"
  d_timestamp :: ts_field
  d_message_id :: "string option"
  d_requestId :: "string option"
  d_request_id :: "string option"
  d_message :: message_field

datatype line = Blank | BadJson | NotObject | Obj data

record entry =
  timestamp :: datetime
  input_tokens :: int
  output_tokens :: int
  entry_total_tokens :: int
  message_id :: string
  request_id :: string
  file' :: string

record ingest_state =
  all_entries :: "entry list"
  processed_hashes :: "string set"

subsection \<open>Ingestion (lines 347 to 411)\<close>

definition truthy :: "string option \<Rightarrow> bool" where
  "truthy v = (case v of None \<Rightarrow> False | Some s \<Rightarrow> s \<noteq> [])"

definition py_or :: "string option \<Rightarrow> string option \<Rightarrow> string option" where
  \<comment> \<open>Python's \<open>a or b\<close>\<close>
  "py_or a b = (if truthy a then a else b)"

definition or_else :: "string option \<Rightarrow> string \<Rightarrow> string" where
  \<comment> \<open>\<open>v or "literal"\<close> with a non-empty literal or \<open>""\<close>\<close>
  "or_else v d = (case v of None \<Rightarrow> d | Some s \<Rightarrow> if s \<noteq> [] then s else d)"

definition get_message_id :: "data \<Rightarrow> string option" where
  "get_message_id d =
     py_or (d_message_id d)
       (case d_message d of MsgDict i u \<Rightarrow> i | MsgAbsent \<Rightarrow> None | MsgNotDict \<Rightarrow> None)"

definition get_request_id :: "data \<Rightarrow> string option" where
  "get_request_id d = py_or (d_requestId d) (d_request_id d)"

definition unique_hash :: "data \<Rightarrow> string option" where
  "unique_hash d =
     (case (get_message_id d, get_request_id d) of
        (Some m, Some r) \<Rightarrow> if m \<noteq> [] \<and> r \<noteq> [] then Some (m @ '':'' @ r) else None
      | _ \<Rightarrow> None)"

definition already_processed :: "string option \<Rightarrow> ingest_state \<Rightarrow> bool" where
  \<comment> \<open>\<open>unique_hash and unique_hash in processed_hashes\<close>\<close>
  "already_processed h st =
     (case h of None \<Rightarrow> False | Some k \<Rightarrow> k \<in> processed_hashes st)"

definition get_or_0 :: "int option \<Rightarrow> int" where
  \<comment> \<open>\<open>usage.get(key, 0)\<close>\<close>
  "get_or_0 v = (case v of None \<Rightarrow> 0 | Some n \<Rightarrow> n)"

definition make_entry :: "string \<Rightarrow> data \<Rightarrow> datetime \<Rightarrow> int \<Rightarrow> int \<Rightarrow> entry" where
  "make_entry file_path d ts i_tok o_tok =
     \<lparr>timestamp = ts, input_tokens = i_tok, output_tokens = o_tok,
      entry_total_tokens = i_tok + o_tok,
      message_id = or_else (get_message_id d) [],
      request_id = or_else (get_request_id d) ''unknown'',
      file' = file_path\<rparr>"

definition append_entry :: "entry \<Rightarrow> string option \<Rightarrow> ingest_state \<Rightarrow> ingest_state" where
  \<comment> \<open>lines 400 to 404: the hash is registered only once the entry is appended\<close>
  "append_entry e h st =
     \<lparr>all_entries = all_entries st @ [e],
      processed_hashes =
        (case h of None \<Rightarrow> processed_hashes st | Some k \<Rightarrow> insert k (processed_hashes st))\<rparr>"

definition usage_body ::
  "string \<Rightarrow> data \<Rightarrow> datetime \<Rightarrow> usage_field \<Rightarrow> ingest_state \<Rightarrow> exn + ingest_state" where
  \<comment> \<open>lines 382 to 404\<close>
  "usage_body file_path d ts u st =
     (case u of
        UsageFalsy \<Rightarrow> Inr st
      | UsageNotDict \<Rightarrow> Inl AttributeError
      | UsageDict i_opt o_opt \<Rightarrow>
          (let i_tok = get_or_0 i_opt; o_tok = get_or_0 o_opt in
           if i_tok = 0 \<and> o_tok = 0 then Inr st
           else Inr (append_entry (make_entry file_path d ts i_tok o_tok) (unique_hash d) st)))"

definition line_body ::
  "int \<Rightarrow> string \<Rightarrow> line \<Rightarrow> ingest_state \<Rightarrow> exn + ingest_state" where
  \<comment> \<open>the body of the inner \<open>try\<close>, lines 357 to 404; \<open>Inl\<close> is a raised exception\<close>
  "line_body cutoff_time file_path l st =
     (case l of
        Blank \<Rightarrow> Inr st
      | BadJson \<Rightarrow> Inl JSONDecodeError
      | NotObject \<Rightarrow> Inl AttributeError
      | Obj d \<Rightarrow>
          if d_type d \<noteq> Some ''assistant'' then Inr st
          else
            (case d_timestamp d of
               TsFalsy \<Rightarrow> Inr st
             | TsNotStr \<Rightarrow> Inl AttributeError
             | TsBadFormat \<Rightarrow> Inl ValueError
             | TsNaive \<Rightarrow> Inl TypeError
             | TsAware ts \<Rightarrow>
                 if \<not> cutoff_time \<le> utc ts then Inr st
                 else if already_processed (unique_hash d) st then Inr st
                 else
                   (case d_message d of
                      MsgAbsent \<Rightarrow> Inr st
                    | MsgNotDict \<Rightarrow> Inl AttributeError
                    | MsgDict i u \<Rightarrow> usage_body file_path d ts u st)))"

definition process_line :: "int \<Rightarrow> string \<Rightarrow> line \<Rightarrow> ingest_state \<Rightarrow> ingest_state" where
  \<comment> \<open>the inner \<open>try ... except: continue\<close>: a raising line leaves the state as it was\<close>
  "process_line cutoff_time file_path l st =
     (case line_body cutoff_time file_path l st of Inl e \<Rightarrow> st | Inr st' \<Rightarrow> st')"

text \<open>
  A log file is its path and the lines read from it before the end of the file or before
  a read error; the outer handler (line 407) abandons the file there and the loop goes
  on with the next one, so an unreadable file is a file of no lines.
\<close>

type_synonym log_file = "string \<times> line list"

definition read_file :: "int \<Rightarrow> log_file \<Rightarrow> ingest_state \<Rightarrow> ingest_state" where
  "read_file cutoff_time f st = fold (process_line cutoff_time (fst f)) (snd f) st"

definition ingest :: "int \<Rightarrow> log_file list \<Rightarrow> ingest_state" where
  "ingest cutoff_time recent_files =
     fold (read_file cutoff_time) recent_files \<lparr>all_entries = [], processed_hashes = {}\<rparr>"

subsection \<open>Block construction (lines 416 to 458)\<close>

record block =
  id' :: datetime  \<comment> \<open>\<open>start_time.isoformat()\<close>, kept as the datetime it prints\<close>
  start_time :: datetime
  end_time :: datetime
  entries :: "entry list"
  total_tokens :: int
  is_active :: bool
  actual_end_time :: "datetime option"

definition should_create_new_block :: "block option \<Rightarrow> entry \<Rightarrow> bool" where
  "should_create_new_block current_block e =
     (case current_block of
        None \<Rightarrow> True
      | Some b \<Rightarrow>
          utc (end_time b) \<le> utc (timestamp e) \<or>
          (entries b \<noteq> [] \<and>
           hours 2 \<le> utc (timestamp e) - utc (timestamp (last (entries b)))))"

definition finalize :: "block list \<Rightarrow> block option \<Rightarrow> block list" where
  \<comment> \<open>lines 434 to 436 and 456 to 458\<close>
  "finalize session_blocks current_block =
     (case current_block of
        None \<Rightarrow> session_blocks
      | Some b \<Rightarrow>
          if entries b \<noteq> []
          then session_blocks @ [b\<lparr>actual_end_time := Some (timestamp (last (entries b)))\<rparr>]
          else session_blocks)"

definition new_block :: "entry \<Rightarrow> block" where
  "new_block e =
     (let st = replace_minute_second_microsecond_0 (timestamp e) in
      \<lparr>id' = st, start_time = st, end_time = plus_timedelta st (hours 5),
       entries = [], total_tokens = 0, is_active = False, actual_end_time = None\<rparr>)"

definition add_entry :: "entry \<Rightarrow> block \<Rightarrow> block" where
  \<comment> \<open>lines 452 and 453\<close>
  "add_entry e b =
     b\<lparr>entries := entries b @ [e], total_tokens := total_tokens b + entry_total_tokens e\<rparr>"

fun block_step :: "entry \<Rightarrow> block list \<times> block option \<Rightarrow> block list \<times> block option" where
  \<comment> \<open>with no current block the condition of line 425 holds\<close>
  "block_step e (session_blocks, None) =
     (finalize session_blocks None, Some (add_entry e (new_block e)))"
| "block_step e (session_blocks, Some b) =
     (if should_create_new_block (Some b) e
      then (finalize session_blocks (Some b), Some (add_entry e (new_block e)))
      else (session_blocks, Some (add_entry e b)))"

definition build_blocks :: "entry list \<Rightarrow> block list" where
  "build_blocks es =
     (case fold block_step es ([], None) of
        (session_blocks, current_block) \<Rightarrow> finalize session_blocks current_block)"

subsection \<open>Marking and selecting (lines 460 to 497)\<close>

definition active_condition :: "int \<Rightarrow> block \<Rightarrow> bool" where
  \<comment> \<open>the condition of lines 463 to 466\<close>
  "active_condition now b =
     (now < utc (end_time b) \<and> 3 \<le> length (entries b) \<and> entries b \<noteq> [] \<and>
      total_seconds_le (now - utc (timestamp (last (entries b)))) 1800)"

definition mark_active :: "int \<Rightarrow> block list \<Rightarrow> block list" where
  "mark_active now session_blocks =
     map (\<lambda>b. if active_condition now b then b\<lparr>is_active := True\<rparr> else b) session_blocks"

fun max_start_time :: "block \<Rightarrow> block list \<Rightarrow> block" where
  \<comment> \<open>\<open>max(b # bs, key=lambda x: x['start_time'])\<close>: the first block of greatest key\<close>
  "max_start_time m [] = m"
| "max_start_time m (b # bs) =
     max_start_time (if utc (start_time m) < utc (start_time b) then b else m) bs"

datatype reset = ResetAt datetime | EXPIRED

record session_data =
  reset_time :: reset        \<comment> \<open>the end time, which the code prints as local HH:MM\<close>
  cost_percent :: real
  tokens_used :: int
  session_active :: bool
  block_id :: "datetime option"
  session_blocks :: "nat option"

datatype selection = ActiveBlock block | ExpiredBlock block | NoBlock

definition select_active :: "block list \<Rightarrow> selection" where
  "select_active blocks =
     (case filter is_active blocks of
        a # as \<Rightarrow> ActiveBlock (max_start_time a as)
      | [] \<Rightarrow>
          (case blocks of
             b # bs \<Rightarrow> ExpiredBlock (max_start_time b bs)
           | [] \<Rightarrow> NoBlock))"

definition report :: "block list \<Rightarrow> selection \<Rightarrow> session_data option" where
  \<comment> \<open>the three \<open>return\<close> statements of lines 476 to 497; \<open>None\<close> is the empty dict\<close>
  "report blocks sel =
     (case sel of
        ActiveBlock current_session \<Rightarrow>
          Some \<lparr>reset_time = ResetAt (end_time current_session),
                cost_percent = (real_of_int (total_tokens current_session) / 88000) * 100,
                tokens_used = total_tokens current_session,
                session_active = True,
                block_id = Some (id' current_session),
                session_blocks = Some (length blocks)\<rparr>
      | ExpiredBlock latest_block \<Rightarrow>
          Some \<lparr>reset_time = EXPIRED,
                cost_percent = 100,
                tokens_used = total_tokens latest_block,
                session_active = False,
                block_id = None,
                session_blocks = None\<rparr>
      | NoBlock \<Rightarrow> None)"

subsection \<open>The whole function\<close>

text \<open>
  The returned dict is modelled by the keys whose values vary (\<open>approach\<close> is a
  constant string), the empty dict by \<open>None\<close>. Outside the per-line body no statement of
  the model raises, token counts being integers and datetimes staying in range, so the
  handler of line 499, which returns the empty dict as well, has no branch of its own.
\<close>

definition sorted_entries :: "int \<Rightarrow> log_file list \<Rightarrow> entry list" where
  \<comment> \<open>\<open>all_entries\<close> after line 414; Python's sort is stable, as \<open>sort_key\<close> is\<close>
  "sorted_entries now recent_files =
     sort_key (\<lambda>x. utc (timestamp x)) (all_entries (ingest (now - hours 192) recent_files))"

definition marked_blocks :: "int \<Rightarrow> log_file list \<Rightarrow> block list" where
  \<comment> \<open>\<open>session_blocks\<close> after the marking pass\<close>
  "marked_blocks now recent_files =
     mark_active now (build_blocks (sorted_entries now recent_files))"

definition get_claude_session_data_claude_monitor_exact ::
  "int \<Rightarrow> log_file list \<Rightarrow> session_data option" where
  "get_claude_session_data_claude_monitor_exact now recent_files =
     (if recent_files = [] then None
      else if all_entries (ingest (now - hours 192) recent_files) = [] then None
      else report (marked_blocks now recent_files)
             (select_active (marked_blocks now recent_files)))"

subsection \<open>Notions used in the statements\<close>

text \<open>
  The two nested loops visit the lines of all files in one sequence, each line with the
  path of its file: \<open>tagged_lines\<close> is that sequence and \<open>run_lines\<close> the loop over
  it. \<open>line_hash\<close> is the de-duplication key a line carries, if any. \<open>entry_of\<close> is
  the entry that a line makes the loop append when its key is not yet registered: it
  collects every test of the loop body other than the one of line 378 (lemma
  \<open>process_line_entry_of\<close> below relates it to \<open>process_line\<close>).
\<close>

definition tagged_lines :: "log_file list \<Rightarrow> (string \<times> line) list" where
  "tagged_lines fs = concat (map (\<lambda>f. map (Pair (fst f)) (snd f)) fs)"

definition run_lines :: "int \<Rightarrow> (string \<times> line) list \<Rightarrow> ingest_state \<Rightarrow> ingest_state" where
  "run_lines c pls st = fold (\<lambda>pl. process_line c (fst pl) (snd pl)) pls st"

definition line_hash :: "line \<Rightarrow> string option" where
  "line_hash l = (case l of Obj d \<Rightarrow> unique_hash d | Blank \<Rightarrow> None | BadJson \<Rightarrow> None | NotObject \<Rightarrow> None)"

definition entry_of :: "int \<Rightarrow> string \<Rightarrow> line \<Rightarrow> entry option" where
  "entry_of c p l =
     (case l of
        Obj d \<Rightarrow>
          if d_type d = Some ''assistant'' then
            (case d_timestamp d of
               TsAware ts \<Rightarrow>
                 if c \<le> utc ts then
                   (case d_message d of
                      MsgDict mi (UsageDict i_opt o_opt) \<Rightarrow>
                        if get_or_0 i_opt = 0 \<and> get_or_0 o_opt = 0 then None
                        else Some (make_entry p d ts (get_or_0 i_opt) (get_or_0 o_opt))
                    | _ \<Rightarrow> None)
                 else None
             | _ \<Rightarrow> None)
          else None
      | _ \<Rightarrow> None)"

text \<open>
  The instant of an entry, and the invariants of the block scan: the entries a scan
  state holds, what every block under construction satisfies, the lower bound that
  sorted input adds, and the event that closed a finished block.
\<close>

abbreviation uts :: "entry \<Rightarrow> int" where "uts e \<equiv> utc (timestamp e)"

definition state_entries :: "block list \<times> block option \<Rightarrow> entry list" where
  "state_entries st =
     concat (map entries (fst st)) @ (case snd st of None \<Rightarrow> [] | Some b \<Rightarrow> entries b)"

definition block_ok :: "block \<Rightarrow> bool" where
  "block_ok b =
     (entries b \<noteq> [] \<and> \<not> is_active b \<and>
      start_time b = replace_minute_second_microsecond_0 (timestamp (hd (entries b))) \<and>
      end_time b = plus_timedelta (start_time b) (hours 5) \<and>
      (\<forall>e \<in> set (entries b). uts e < utc (end_time b)) \<and>
      total_tokens b = sum_list (map entry_total_tokens (entries b)))"

definition state_ok :: "block list \<times> block option \<Rightarrow> bool" where
  "state_ok st = ((\<forall>b \<in> set (fst st). block_ok b) \<and> (\<forall>b. snd st = Some b \<longrightarrow> block_ok b))"



definition closed_by :: "entry set \<Rightarrow> block \<Rightarrow> bool" where
  "closed_by E A =
     (\<exists>f \<in> E. utc (end_time A) \<le> uts f \<or> hours 2 \<le> uts f - uts (last (entries A)))"

text \<open>
  Concrete inputs for the instances below: an instant of 1 January 2024 (UTC), a
  well-formed assistant line with both token counts, and an entry as such a line yields.
\<close>

definition jan1 :: "int \<Rightarrow> int \<Rightarrow> int" where
  "jan1 h m = (1704067200 + h * 3600 + m * 60) * 1000000"

definition entry_at :: "int \<Rightarrow> int \<Rightarrow> entry" where
  "entry_at t n =
     \<lparr>timestamp = \<lparr>utc = t, utcoffset = 0\<rparr>, input_tokens = n, output_tokens = 0,
      entry_total_tokens = n, message_id = [], request_id = ''unknown'', file' = ''a.jsonl''\<rparr>"

definition usage_line :: "int \<Rightarrow> string option \<Rightarrow> string option \<Rightarrow> int \<Rightarrow> int \<Rightarrow> line" where
  "usage_line t mid rid i_tok o_tok =
     Obj \<lparr>d_type = Some ''assistant'', d_timestamp = TsAware \<lparr>utc = t, utcoffset = 0\<rparr>,
          d_message_id = mid, d_requestId = rid, d_request_id = None,
          d_message = MsgDict None (UsageDict (Some i_tok) (Some o_tok))\<rparr>"

section \<open>Lemmas\<close>

lemma fold_map_pair: "fold (\<lambda>pl. process_line c (fst pl) (snd pl)) (map (Pair p) ls) st = fold (process_line c p) ls st"
  by (induction ls arbitrary: st) auto

lemma fold_read_file: "fold (read_file c) fs st = run_lines c (tagged_lines fs) st"
  by (induction fs arbitrary: st) (auto simp: run_lines_def tagged_lines_def read_file_def fold_map_pair)

lemma ingest_run_lines: "ingest c fs = run_lines c (tagged_lines fs) \<lparr>all_entries = [], processed_hashes = {}\<rparr>"
  by (simp add: ingest_def fold_read_file)

lemma run_lines_append: "run_lines c (xs @ ys) st = run_lines c ys (run_lines c xs st)"
  by (simp add: run_lines_def)

lemma run_lines_Cons: "run_lines c (x # xs) st = run_lines c xs (process_line c (fst x) (snd x) st)"
  by (simp add: run_lines_def)

lemma process_line_cases:
  "process_line c p l st = st \<or>
   (\<exists>d ts i_opt o_opt mi. l = Obj d \<and> d_type d = Some ''assistant'' \<and> d_timestamp d = TsAware ts \<and> c \<le> utc ts \<and>
      \<not> already_processed (unique_hash d) st \<and> d_message d = MsgDict mi (UsageDict i_opt o_opt) \<and>
      \<not> (get_or_0 i_opt = 0 \<and> get_or_0 o_opt = 0) \<and>
      process_line c p l st = append_entry (make_entry p d ts (get_or_0 i_opt) (get_or_0 o_opt)) (unique_hash d) st)"
  by (auto simp: process_line_def line_body_def usage_body_def Let_def split: line.splits ts_field.splits message_field.splits usage_field.splits)

lemma process_line_hashes_mono: "processed_hashes st \<subseteq> processed_hashes (process_line c p l st)"
  using process_line_cases[of c p l st] by (auto simp: append_entry_def split: option.splits)

lemma run_lines_hashes_mono: "processed_hashes st \<subseteq> processed_hashes (run_lines c pls st)"
proof (induction pls arbitrary: st)
  case Nil show ?case by (simp add: run_lines_def)
next
  case (Cons x xs)
  show ?case using Cons[of "process_line c (fst x) (snd x) st"] process_line_hashes_mono[of st c "fst x" "snd x"]
    by (simp add: run_lines_Cons)
qed

lemma process_line_entry_of:
  "process_line c p l st =
     (case entry_of c p l of
        None \<Rightarrow> st
      | Some e \<Rightarrow> if already_processed (line_hash l) st then st else append_entry e (line_hash l) st)"
  by (auto simp: process_line_def line_body_def usage_body_def Let_def entry_of_def line_hash_def
      split: line.splits ts_field.splits message_field.splits usage_field.splits)


lemma process_line_no_entry: "entry_of c p l = None \<Longrightarrow> process_line c p l st = st"
  by (simp add: process_line_entry_of)

lemma process_line_seen:
  "line_hash l = Some k \<Longrightarrow> k \<in> processed_hashes st \<Longrightarrow> process_line c p l st = st"
  by (simp add: process_line_entry_of already_processed_def split: option.splits)

lemma process_line_registers:
  "line_hash l = Some k \<Longrightarrow> entry_of c p l \<noteq> None \<Longrightarrow> k \<in> processed_hashes (process_line c p l st)"
  by (auto simp: process_line_entry_of already_processed_def append_entry_def split: option.splits)

lemma run_lines_drop_seen:
  assumes "line_hash l1 = Some k" "line_hash l2 = Some k" "entry_of c p1 l1 \<noteq> None"
  shows "run_lines c (xs @ (p1, l1) # ys @ (p2, l2) # zs) st = run_lines c (xs @ (p1, l1) # ys @ zs) st"
proof -
  let ?s1 = "process_line c p1 l1 (run_lines c xs st)"
  have "k \<in> processed_hashes ?s1" using assms by (rule_tac process_line_registers)
  then have "k \<in> processed_hashes (run_lines c ys ?s1)" using run_lines_hashes_mono by blast
  then have "process_line c p2 l2 (run_lines c ys ?s1) = run_lines c ys ?s1"
    using assms(2) by (rule_tac process_line_seen)
  then show ?thesis by (simp add: run_lines_append run_lines_Cons)
qed

lemma entry_of_path: "(entry_of c p1 l = None) = (entry_of c p2 l = None)"
  by (auto simp: entry_of_def split: line.splits ts_field.splits message_field.splits usage_field.splits)

lemma run_lines_drop_repeat:
  assumes "line_hash l \<noteq> None"
  shows "run_lines c (xs @ (p1, l) # ys @ (p2, l) # zs) st = run_lines c (xs @ (p1, l) # ys @ zs) st"
proof (cases "entry_of c p1 l")
  case None
  then have "entry_of c p2 l = None" using entry_of_path by blast
  then show ?thesis by (simp add: run_lines_append run_lines_Cons process_line_no_entry)
next
  case (Some e)
  then show ?thesis using assms run_lines_drop_seen[of l _ l c p1] by auto
qed

lemma run_lines_drop_no_entry:
  "entry_of c p l = None \<Longrightarrow> run_lines c (xs @ (p, l) # ys) st = run_lines c (xs @ ys) st"
  by (simp add: run_lines_append run_lines_Cons process_line_no_entry)

lemma process_line_entries_nonzero:
  "\<forall>e \<in> set (all_entries st). \<not> (input_tokens e = 0 \<and> output_tokens e = 0) \<Longrightarrow>
   \<forall>e \<in> set (all_entries (process_line c p l st)). \<not> (input_tokens e = 0 \<and> output_tokens e = 0)"
  by (auto simp: process_line_entry_of entry_of_def append_entry_def make_entry_def
      split: option.splits line.splits ts_field.splits message_field.splits usage_field.splits if_splits)

lemma run_lines_entries_nonzero:
  "\<forall>e \<in> set (all_entries st). \<not> (input_tokens e = 0 \<and> output_tokens e = 0) \<Longrightarrow>
   \<forall>e \<in> set (all_entries (run_lines c pls st)). \<not> (input_tokens e = 0 \<and> output_tokens e = 0)"
proof (induction pls arbitrary: st)
  case Nil then show ?case by (simp add: run_lines_def)
next
  case (Cons x xs)
  show ?case unfolding run_lines_Cons
    by (rule Cons.IH) (rule process_line_entries_nonzero, rule Cons.prems)
qed


lemma finalize_simps [simp]:
  "finalize bs None = bs"
  "entries b \<noteq> [] \<Longrightarrow> finalize bs (Some b) = bs @ [b\<lparr>actual_end_time := Some (timestamp (last (entries b)))\<rparr>]"
  "entries b = [] \<Longrightarrow> finalize bs (Some b) = bs"
  by (simp_all add: finalize_def)



lemma entries_finalize: "concat (map entries (finalize bs cur)) = state_entries (bs, cur)"
  by (simp add: finalize_def state_entries_def split: option.splits)


lemma state_entries_step: "state_entries (block_step e st) = state_entries st @ [e]"
  by (cases st; cases "snd st")
     (auto simp: state_entries_def add_entry_def new_block_def Let_def finalize_def should_create_new_block_def)

lemma state_entries_fold: "state_entries (fold block_step es st) = state_entries st @ es"
  by (induction es arbitrary: st) (simp_all add: state_entries_step)

lemma build_blocks_entries: "concat (map entries (build_blocks es)) = es"
proof -
  obtain bs cur where f: "fold block_step es ([], None) = (bs, cur)" by (cases "fold block_step es ([], None)")
  have "state_entries (bs, cur) = es" using state_entries_fold[of es "([], None)"] f
    by (simp add: state_entries_def)
  then show ?thesis by (simp add: build_blocks_def f entries_finalize)
qed







lemma utc_replace_bounds:
  "utc (replace_minute_second_microsecond_0 t) \<le> utc t"
  "utc t < utc (replace_minute_second_microsecond_0 t) + hours 1"
  by (simp_all add: replace_minute_second_microsecond_0_def hours_def)

lemma block_ok_new: "block_ok (add_entry e (new_block e))"
  using utc_replace_bounds(2)[of "timestamp e"]
  by (simp add: block_ok_def add_entry_def new_block_def Let_def plus_timedelta_def hours_def)

lemma block_ok_add:
  "block_ok b \<Longrightarrow> \<not> should_create_new_block (Some b) e \<Longrightarrow> block_ok (add_entry e b)"
  by (auto simp: block_ok_def add_entry_def should_create_new_block_def)

lemma block_ok_actual_end: "block_ok (b\<lparr>actual_end_time := x\<rparr>) = block_ok b"
  by (simp add: block_ok_def)

lemma state_ok_step: "state_ok st \<Longrightarrow> state_ok (block_step e st)"
  by (cases st; cases "snd st")
     (auto simp: state_ok_def block_ok_new block_ok_add block_ok_actual_end finalize_def)

lemma state_ok_fold: "state_ok st \<Longrightarrow> state_ok (fold block_step es st)"
  by (induction es arbitrary: st) (simp_all add: state_ok_step)

lemma state_ok_finalize: "state_ok (bs, cur) \<Longrightarrow> \<forall>b \<in> set (finalize bs cur). block_ok b"
  by (auto simp: state_ok_def finalize_def block_ok_actual_end split: option.splits)

lemma build_blocks_ok: "b \<in> set (build_blocks es) \<Longrightarrow> block_ok b"
proof -
  assume b: "b \<in> set (build_blocks es)"
  have "state_ok (fold block_step es ([], None))" by (rule state_ok_fold) (simp add: state_ok_def)
  then show ?thesis using b state_ok_finalize
    by (cases "fold block_step es ([], None)") (auto simp: build_blocks_def)
qed







lemma closed_by_actual_end: "closed_by E (b\<lparr>actual_end_time := x\<rparr>) = closed_by E b"
  by (simp add: closed_by_def)

lemma closed_step:
  assumes "e \<in> E" "\<forall>A \<in> set (fst st). closed_by E A"
  shows "\<forall>A \<in> set (fst (block_step e st)). closed_by E A"
proof (cases st)
  case (Pair bs cur)
  show ?thesis
  proof (cases cur)
    case None then show ?thesis using assms Pair by (simp add: should_create_new_block_def)
  next
    case (Some b)
    have "should_create_new_block (Some b) e \<Longrightarrow> entries b \<noteq> [] \<Longrightarrow> closed_by E b"
      using assms(1) by (auto simp: should_create_new_block_def closed_by_def)
    then show ?thesis using assms Pair Some
      by (auto simp: finalize_def closed_by_actual_end)
  qed
qed

lemma closed_fold:
  "set es \<subseteq> E \<Longrightarrow> \<forall>A \<in> set (fst st). closed_by E A \<Longrightarrow>
   \<forall>A \<in> set (fst (fold block_step es st)). closed_by E A"
proof (induction es arbitrary: st)
  case Nil then show ?case by simp
next
  case (Cons e es)
  have "\<forall>A \<in> set (fst (block_step e st)). closed_by E A"
    using Cons.prems by (intro closed_step) auto
  then show ?case using Cons.IH[of "block_step e st"] Cons.prems(1) by simp
qed

lemma closed_not_active:
  assumes "closed_by E A" "\<forall>f \<in> E. uts f \<le> now"
  shows "\<not> active_condition now A"
  using assms by (auto simp: closed_by_def active_condition_def total_seconds_le_def hours_def)

lemma filter_mark_none:
  "\<forall>b \<in> set bs. \<not> is_active b \<and> \<not> active_condition now b \<Longrightarrow> filter is_active (mark_active now bs) = []"
  by (induction bs) (auto simp: mark_active_def)

lemma mark_active_append: "mark_active now (xs @ ys) = mark_active now xs @ mark_active now ys"
  by (simp add: mark_active_def)

lemma mark_active_single: "length (filter is_active (mark_active now [x])) \<le> 1"
  by (simp add: mark_active_def)

lemma at_most_one_active:
  assumes "\<forall>e \<in> set es. uts e \<le> now"
  shows "length (filter is_active (mark_active now (build_blocks es))) \<le> 1"
proof -
  obtain bs cur where f: "fold block_step es ([], None) = (bs, cur)"
    by (cases "fold block_step es ([], None)")
  have "\<forall>A \<in> set (fst (fold block_step es ([], None))). closed_by (set es) A"
    by (rule closed_fold) simp_all
  then have c: "\<forall>A \<in> set bs. \<not> active_condition now A"
    using f closed_not_active[OF _ assms] by auto
  have "state_ok (fold block_step es ([], None))" by (rule state_ok_fold) (simp add: state_ok_def)
  then have "\<forall>A \<in> set bs. \<not> is_active A" using f by (auto simp: state_ok_def block_ok_def)
  then have n: "filter is_active (mark_active now bs) = []" using c by (intro filter_mark_none) auto
  have "\<exists>x. finalize bs cur = bs \<or> finalize bs cur = bs @ [x]"
    by (auto simp: finalize_def split: option.splits)
  then show ?thesis using n mark_active_single[of now]
    by (auto simp: build_blocks_def f mark_active_append)
qed




lemmas model_defs = get_claude_session_data_claude_monitor_exact_def marked_blocks_def sorted_entries_def
  ingest_def read_file_def process_line_def line_body_def usage_body_def append_entry_def make_entry_def
  get_or_0_def already_processed_def unique_hash_def get_request_id_def get_message_id_def or_else_def
  py_or_def truthy_def hours_def total_seconds_le_def replace_minute_second_microsecond_0_def plus_timedelta_def
  build_blocks_def add_entry_def new_block_def finalize_def should_create_new_block_def
  mark_active_def active_condition_def select_active_def report_def usage_line_def
  jan1_def entry_at_def tagged_lines_def line_hash_def entry_of_def

lemma marked_blocks_cong:
  assumes "ingest (now - hours 192) fs2 = ingest (now - hours 192) fs1"
  shows "marked_blocks now fs2 = marked_blocks now fs1"
  unfolding marked_blocks_def sorted_entries_def assms ..

lemma ingest_nil: "all_entries (ingest c []) = []"
  by (simp add: ingest_def)

lemma build_blocks_nil: "build_blocks [] = []"
  by (simp add: build_blocks_def)

lemma marked_blocks_no_entries:
  assumes "all_entries (ingest (now - hours 192) fs) = []"
  shows "marked_blocks now fs = []"
  unfolding marked_blocks_def sorted_entries_def assms
  by (simp add: build_blocks_nil mark_active_def)

lemma select_active_nil: "select_active [] = NoBlock"
  by (simp add: select_active_def)

lemma session_data_eq:
  "get_claude_session_data_claude_monitor_exact now fs =
     report (marked_blocks now fs) (select_active (marked_blocks now fs))"
proof (cases "all_entries (ingest (now - hours 192) fs) = []")
  case True
  have "report (marked_blocks now fs) (select_active (marked_blocks now fs)) = None"
    unfolding marked_blocks_no_entries[OF True] select_active_nil by (simp add: report_def)
  then show ?thesis using True
    by (simp only: get_claude_session_data_claude_monitor_exact_def if_True if_cancel)
next
  case False
  then have "fs \<noteq> []" using ingest_nil by metis
  then show ?thesis using False
    by (simp only: get_claude_session_data_claude_monitor_exact_def if_False)
qed

lemma session_data_cong:
  assumes "ingest (now - hours 192) fs2 = ingest (now - hours 192) fs1"
  shows "get_claude_session_data_claude_monitor_exact now fs2 =
         get_claude_session_data_claude_monitor_exact now fs1"
  unfolding session_data_eq marked_blocks_cong[OF assms] ..

lemma mark_active_mem:
  "b \<in> set (mark_active now bs) \<Longrightarrow>
   \<exists>b0 \<in> set bs. entries b = entries b0 \<and> total_tokens b = total_tokens b0 \<and>
      start_time b = start_time b0 \<and> end_time b = end_time b0 \<and>
      is_active b = (is_active b0 \<or> active_condition now b0)"
  by (induction bs) (auto simp: mark_active_def split: if_splits)

lemma set_sorted_entries:
  "set (sorted_entries now fs) = set (all_entries (ingest (now - hours 192) fs))"
  by (simp add: sorted_entries_def)

lemma build_blocks_entry_mem:
  "b \<in> set (build_blocks es) \<Longrightarrow> e \<in> set (entries b) \<Longrightarrow> e \<in> set es"
proof -
  assume "b \<in> set (build_blocks es)" "e \<in> set (entries b)"
  then have "e \<in> set (concat (map entries (build_blocks es)))" by auto
  then show ?thesis by (simp only: build_blocks_entries)
qed

lemma marked_block_entry_mem:
  assumes "b \<in> set (marked_blocks now fs)" "e \<in> set (entries b)"
  shows "e \<in> set (all_entries (ingest (now - hours 192) fs))"
proof -
  obtain b0 where "b0 \<in> set (build_blocks (sorted_entries now fs))" "entries b = entries b0"
    using mark_active_mem[OF assms(1)[unfolded marked_blocks_def]] by blast
  then have "e \<in> set (sorted_entries now fs)" using assms(2) build_blocks_entry_mem by metis
  then show ?thesis by (simp only: set_sorted_entries)
qed

lemma marked_block_total:
  assumes "b \<in> set (marked_blocks now fs)"
  shows "total_tokens b = sum_list (map entry_total_tokens (entries b))"
proof -
  obtain b0 where b0: "b0 \<in> set (build_blocks (sorted_entries now fs))"
    "entries b = entries b0" "total_tokens b = total_tokens b0"
    using mark_active_mem[OF assms(1)[unfolded marked_blocks_def]] by blast
  have "block_ok b0" using b0(1) by (rule build_blocks_ok)
  then show ?thesis using b0(2,3) by (simp add: block_ok_def)
qed

lemma ingest_entries_nonzero:
  "e \<in> set (all_entries (ingest c fs)) \<Longrightarrow> \<not> (input_tokens e = 0 \<and> output_tokens e = 0)"
  using run_lines_entries_nonzero[of "\<lparr>all_entries = [], processed_hashes = {}\<rparr>" c "tagged_lines fs"]
  by (simp add: ingest_run_lines)

lemma entry_of_zero_tokens:
  "d_message d = MsgDict mi (UsageDict i_opt o_opt) \<Longrightarrow> get_or_0 i_opt = 0 \<Longrightarrow> get_or_0 o_opt = 0 \<Longrightarrow>
   entry_of c p (Obj d) = None"
  by (simp add: entry_of_def split: ts_field.splits)

lemma ingest_drop_no_entry:
  assumes "entry_of c p l = None" "tagged_lines fs2 = xs @ (p, l) # ys" "tagged_lines fs1 = xs @ ys"
  shows "ingest c fs2 = ingest c fs1"
  unfolding ingest_run_lines assms(2,3) by (rule run_lines_drop_no_entry[OF assms(1)])






section \<open>The claims\<close>

subsection \<open>Ingestion and de-duplication\<close>

text \<open>
  Claim C8. Ingesting the same event twice, as two identical log lines that carry a
  de-duplication key, in one file or in two, gives the same ingestion state as ingesting
  it once, hence the same block totals and the same reported session data.
\<close>

theorem dedup_idempotent:
  assumes "line_hash l \<noteq> None"
    and "tagged_lines fs2 = xs @ (p1, l) # ys @ (p2, l) # zs"
    and "tagged_lines fs1 = xs @ (p1, l) # ys @ zs"
  shows "ingest (now - hours 192) fs2 = ingest (now - hours 192) fs1 \<and>
         map total_tokens (marked_blocks now fs2) = map total_tokens (marked_blocks now fs1) \<and>
         get_claude_session_data_claude_monitor_exact now fs2 =
           get_claude_session_data_claude_monitor_exact now fs1"
proof -
  have "ingest (now - hours 192) fs2 = ingest (now - hours 192) fs1"
    unfolding ingest_run_lines assms(2,3) by (rule run_lines_drop_repeat[OF assms(1)])
  then show ?thesis using marked_blocks_cong session_data_cong by metis
qed

theorem dedup_idempotent_witness:
  "map total_tokens (marked_blocks (jan1 11 12)
      [(''a.jsonl'', [usage_line (jan1 10 15) (Some ''msg_1'') (Some ''req_1'') 300 200]),
       (''b.jsonl'', [usage_line (jan1 10 15) (Some ''msg_1'') (Some ''req_1'') 300 200])]) =
   map total_tokens (marked_blocks (jan1 11 12)
      [(''a.jsonl'', [usage_line (jan1 10 15) (Some ''msg_1'') (Some ''req_1'') 300 200])]) \<and>
   map total_tokens (marked_blocks (jan1 11 12)
      [(''a.jsonl'', [usage_line (jan1 10 15) (Some ''msg_1'') (Some ''req_1'') 300 200])]) = [500]"
proof -
  let ?l = "usage_line (jan1 10 15) (Some ''msg_1'') (Some ''req_1'') 300 200"
  have h1: "line_hash ?l \<noteq> None"
    by (simp add: line_hash_def usage_line_def unique_hash_def get_message_id_def
        get_request_id_def py_or_def truthy_def)
  have h2: "tagged_lines [(''a.jsonl'', [?l]), (''b.jsonl'', [?l])] =
      [] @ (''a.jsonl'', ?l) # [] @ (''b.jsonl'', ?l) # []"
    by (simp add: tagged_lines_def)
  have h3: "tagged_lines [(''a.jsonl'', [?l])] = [] @ (''a.jsonl'', ?l) # [] @ []"
    by (simp add: tagged_lines_def)
  have a: "map total_tokens (marked_blocks (jan1 11 12) [(''a.jsonl'', [?l]), (''b.jsonl'', [?l])]) =
           map total_tokens (marked_blocks (jan1 11 12) [(''a.jsonl'', [?l])])"
    using dedup_idempotent [OF h1 h2 h3, of "jan1 11 12"] by (rule_tac conjunct1[OF conjunct2])
  have b: "map total_tokens (marked_blocks (jan1 11 12) [(''a.jsonl'', [?l])]) = [500]"
    by (simp add: model_defs Let_def)
  show ?thesis by (rule conjI[OF a b])
qed




text \<open>
  Claim C9. No ingested entry has both token counts zero, so no entry of any block has;
  the total of a block is the sum over its entries; and a line whose usage object gives
  zero for both counts (present as zero, or absent and defaulted) can be removed from the
  log without changing the ingestion state, the blocks or the result.
\<close>

theorem zero_token_events_discarded:
  "(\<forall>e \<in> set (all_entries (ingest c fs)). \<not> (input_tokens e = 0 \<and> output_tokens e = 0)) \<and>
   (\<forall>b \<in> set (marked_blocks now fs).
      (\<forall>e \<in> set (entries b). \<not> (input_tokens e = 0 \<and> output_tokens e = 0)) \<and>
      total_tokens b = sum_list (map entry_total_tokens (entries b))) \<and>
   (d_message d = MsgDict mi (UsageDict i_opt o_opt) \<and> get_or_0 i_opt = 0 \<and> get_or_0 o_opt = 0 \<and>
    tagged_lines fs2 = xs @ (p, Obj d) # ys \<and> tagged_lines fs1 = xs @ ys \<longrightarrow>
      ingest c fs2 = ingest c fs1 \<and> marked_blocks now fs2 = marked_blocks now fs1 \<and>
      get_claude_session_data_claude_monitor_exact now fs2 =
        get_claude_session_data_claude_monitor_exact now fs1)"
proof (intro conjI ballI impI)
  fix e assume "e \<in> set (all_entries (ingest c fs))"
  then show "\<not> (input_tokens e = 0 \<and> output_tokens e = 0)" by (rule ingest_entries_nonzero)
next
  fix b e assume "b \<in> set (marked_blocks now fs)" "e \<in> set (entries b)"
  then have "e \<in> set (all_entries (ingest (now - hours 192) fs))" by (rule marked_block_entry_mem)
  then show "\<not> (input_tokens e = 0 \<and> output_tokens e = 0)" by (rule ingest_entries_nonzero)
next
  fix b assume "b \<in> set (marked_blocks now fs)"
  then show "total_tokens b = sum_list (map entry_total_tokens (entries b))" by (rule marked_block_total)
next
  assume a: "d_message d = MsgDict mi (UsageDict i_opt o_opt) \<and> get_or_0 i_opt = 0 \<and> get_or_0 o_opt = 0 \<and>
    tagged_lines fs2 = xs @ (p, Obj d) # ys \<and> tagged_lines fs1 = xs @ ys"
  then have n: "\<And>c'. entry_of c' p (Obj d) = None" using entry_of_zero_tokens by blast
  show "ingest c fs2 = ingest c fs1" using ingest_drop_no_entry[OF n] a by blast
  have i: "ingest (now - hours 192) fs2 = ingest (now - hours 192) fs1"
    using ingest_drop_no_entry[OF n] a by blast
  show "marked_blocks now fs2 = marked_blocks now fs1" using i by (rule marked_blocks_cong)
  show "get_claude_session_data_claude_monitor_exact now fs2 =
        get_claude_session_data_claude_monitor_exact now fs1" using i by (rule session_data_cong)
qed

theorem zero_token_events_discarded_witness:
  "map (map entry_total_tokens \<circ> entries) (marked_blocks (jan1 11 12)
     [(''a.jsonl'', [usage_line (jan1 10 15) None None 300 200,
                     usage_line (jan1 10 20) None None 0 0,
                     usage_line (jan1 10 45) None None 7 9])]) = [[500, 16]]"
proof -
  let ?l1 = "usage_line (jan1 10 15) None None 300 200"
  let ?d = "\<lparr>d_type = Some ''assistant'', d_timestamp = TsAware \<lparr>utc = jan1 10 20, utcoffset = 0\<rparr>,
          d_message_id = None, d_requestId = None, d_request_id = None,
          d_message = MsgDict None (UsageDict (Some 0) (Some 0))\<rparr>"
  let ?l3 = "usage_line (jan1 10 45) None None 7 9"
  have z: "usage_line (jan1 10 20) None None 0 0 = Obj ?d" by (simp add: usage_line_def)
  have h: "d_message ?d = MsgDict None (UsageDict (Some 0) (Some 0)) \<and> get_or_0 (Some 0) = 0 \<and>
      get_or_0 (Some 0) = 0 \<and>
      tagged_lines [(''a.jsonl'', [?l1, Obj ?d, ?l3])] = [(''a.jsonl'', ?l1)] @ (''a.jsonl'', Obj ?d) # [(''a.jsonl'', ?l3)] \<and>
      tagged_lines [(''a.jsonl'', [?l1, ?l3])] = [(''a.jsonl'', ?l1)] @ [(''a.jsonl'', ?l3)]"
    by (simp add: tagged_lines_def get_or_0_def)
  have a: "marked_blocks (jan1 11 12) [(''a.jsonl'', [?l1, Obj ?d, ?l3])] =
           marked_blocks (jan1 11 12) [(''a.jsonl'', [?l1, ?l3])]"
    using zero_token_events_discarded [where d = ?d and mi = None and i_opt = "Some 0" and o_opt = "Some 0"
        and ?fs2.0 = "[(''a.jsonl'', [?l1, Obj ?d, ?l3])]" and xs = "[(''a.jsonl'', ?l1)]" and p = "''a.jsonl''"
        and ys = "[(''a.jsonl'', ?l3)]" and ?fs1.0 = "[(''a.jsonl'', [?l1, ?l3])]" and now = "jan1 11 12"] h
    by blast
  have b: "map (map entry_total_tokens \<circ> entries) (marked_blocks (jan1 11 12) [(''a.jsonl'', [?l1, ?l3])]) = [[500, 16]]"
    by (simp add: model_defs Let_def)
  show ?thesis unfolding z a by (rule b)
qed



subsection \<open>Block construction\<close>





subsection \<open>The active flag\<close>

text \<open>
  Claim C3. As stated, at most one block is flagged active for every log and every
  instant. The log below has three events shortly before \<open>now\<close> and three events dated
  three hours after \<open>now\<close>: both blocks end after \<open>now\<close>, both have three entries, and the
  elapsed time since the last entry of each is at most 30 minutes (negative for the
  second), so both are flagged.
\<close>

theorem two_active_blocks_counterexample:
  "map is_active (marked_blocks (jan1 11 12)
     [(''a.jsonl'', [usage_line (jan1 11 0) None None 1 0, usage_line (jan1 11 1) None None 1 0,
                     usage_line (jan1 11 2) None None 1 0, usage_line (jan1 14 12) None None 1 0,
                     usage_line (jan1 14 13) None None 1 0, usage_line (jan1 14 14) None None 1 0])]) =
   [True, True]"
  by (simp add: model_defs Let_def)

text \<open>
  Claim C3, amended. For every event log none of whose ingested events is dated after the
  evaluation instant, at most one block is flagged active after the marking pass.
\<close>

theorem at_most_one_active_block:
  assumes "\<forall>e \<in> set (all_entries (ingest (now - hours 192) fs)). utc (timestamp e) \<le> now"
  shows "length (filter is_active (marked_blocks now fs)) \<le> 1"
proof -
  have "\<forall>e \<in> set (sorted_entries now fs). utc (timestamp e) \<le> now"
    using assms by (simp only: set_sorted_entries)
  then show ?thesis unfolding marked_blocks_def by (rule at_most_one_active)
qed

theorem at_most_one_active_block_witness:
  "map is_active (marked_blocks (jan1 11 12)
     [(''a.jsonl'', [usage_line (jan1 7 0) None None 1 0, usage_line (jan1 10 45) None None 1 0,
                     usage_line (jan1 11 10) None None 1 0, usage_line (jan1 11 11) None None 1 0])]) =
   [False, True] \<and>
   length (filter is_active (marked_blocks (jan1 11 12)
     [(''a.jsonl'', [usage_line (jan1 7 0) None None 1 0, usage_line (jan1 10 45) None None 1 0,
                     usage_line (jan1 11 10) None None 1 0, usage_line (jan1 11 11) None None 1 0])])) \<le> 1"
proof -
  let ?fs = "[(''a.jsonl'', [usage_line (jan1 7 0) None None 1 0, usage_line (jan1 10 45) None None 1 0,
                     usage_line (jan1 11 10) None None 1 0, usage_line (jan1 11 11) None None 1 0])]"
  have h: "\<forall>e \<in> set (all_entries (ingest (jan1 11 12 - hours 192) ?fs)). utc (timestamp e) \<le> jan1 11 12"
    by (simp add: model_defs Let_def)
  have a: "map is_active (marked_blocks (jan1 11 12) ?fs) = [False, True]"
    by (simp add: model_defs Let_def)
  have b: "length (filter is_active (marked_blocks (jan1 11 12) ?fs)) \<le> 1"
    using h by (rule at_most_one_active_block)
  show ?thesis using a b by (rule conjI)
qed



subsection \<open>Selection and the reported data\<close>






end
